theory Spec2Isabelle
  imports Main
begin

unbundle bit_operations_syntax

section \<open>Cascaded MAX7219 devices: the frame buffer and the cascade write protocol\<close>

text \<open>
  A shallow embedding of \<^verbatim>\<open>rpi-led-matrix/device.py\<close>. Python integers are \<open>int\<close>,
  the buffer is an \<open>int list\<close>, and the SPI handle is the list of the byte sequences
  handed to \<^verbatim>\<open>xfer2\<close>, oldest first. A method takes the object and returns either the
  object after a normal return, or the exception together with the object as it is
  when the exception leaves the method.
\<close>

subsection \<open>Constants\<close>

definition MAX7219_REG_DIGIT0 :: int where "MAX7219_REG_DIGIT0 = 1"
definition MAX7219_REG_DIGIT7 :: int where "MAX7219_REG_DIGIT7 = 8"
definition MAX7219_REG_DECODEMODE :: int where "MAX7219_REG_DECODEMODE = 9"
definition MAX7219_REG_INTENSITY :: int where "MAX7219_REG_INTENSITY = 10"
definition MAX7219_REG_SCANLIMIT :: int where "MAX7219_REG_SCANLIMIT = 11"
definition MAX7219_REG_SHUTDOWN :: int where "MAX7219_REG_SHUTDOWN = 12"
definition MAX7219_REG_DISPLAYTEST :: int where "MAX7219_REG_DISPLAYTEST = 15"

definition NUM_DIGITS :: int where "NUM_DIGITS = 8"

subsection \<open>Python lists and exceptions\<close>

datatype error = AssertionError | IndexError | LookupError | OverflowError int

text \<open>An index of a Python list: a negative one counts from the end.\<close>

definition py_index :: "'a list \<Rightarrow> int \<Rightarrow> nat option" where
  "py_index xs i =
     (let n = int (length xs); j = (if i < 0 then n + i else i)
      in if 0 \<le> j \<and> j < n then Some (nat j) else None)"

definition py_getitem :: "'a list \<Rightarrow> int \<Rightarrow> error + 'a" where
  "py_getitem xs i = (case py_index xs i of None \<Rightarrow> Inl IndexError | Some j \<Rightarrow> Inr (xs ! j))"

definition py_setitem :: "'a list \<Rightarrow> int \<Rightarrow> 'a \<Rightarrow> error + 'a list" where
  "py_setitem xs i v = (case py_index xs i of None \<Rightarrow> Inl IndexError | Some j \<Rightarrow> Inr (xs[j := v]))"

definition py_delitem :: "'a list \<Rightarrow> int \<Rightarrow> error + 'a list" where
  "py_delitem xs i =
     (case py_index xs i of None \<Rightarrow> Inl IndexError | Some j \<Rightarrow> Inr (take j xs @ drop (Suc j) xs))"

text \<open>\<^verbatim>\<open>range(a, b)\<close>: the integers from \<open>a\<close> up to \<open>b - 1\<close>, none when \<open>b \<le> a\<close>.\<close>

definition py_range :: "int \<Rightarrow> int \<Rightarrow> int list" where
  "py_range a b = map (\<lambda>k. a + int k) [0..<nat (b - a)]"

subsection \<open>The device object\<close>

record device =
  cascaded :: int
  buffer :: "int list"
  spi :: "int list list"

type_synonym outcome = "(error \<times> device) + device"

text \<open>A \<^verbatim>\<open>for\<close> loop over a list whose body is a method call: an exception ends it.\<close>

fun for_each :: "'a list \<Rightarrow> ('a \<Rightarrow> device \<Rightarrow> outcome) \<Rightarrow> device \<Rightarrow> outcome" where
  "for_each [] body s = Inr s"
| "for_each (x # xs) body s =
     (case body x s of Inl e \<Rightarrow> Inl e | Inr s' \<Rightarrow> for_each xs body s')"

subsection \<open>class Device\<close>

text \<open>\<^verbatim>\<open>_write\<close>: one call of \<^verbatim>\<open>xfer2\<close> with the bytes given.\<close>

definition device_write :: "int list \<Rightarrow> device \<Rightarrow> device" where
  "device_write data s = s\<lparr>spi := spi s @ [data]\<rparr>"

definition command :: "int \<Rightarrow> int \<Rightarrow> device \<Rightarrow> outcome" where
  "command register data s =
     (if \<not> (MAX7219_REG_DECODEMODE \<le> register \<and> register \<le> MAX7219_REG_DISPLAYTEST)
      then Inl (AssertionError, s)
      else Inr (device_write (concat (replicate (nat (cascaded s)) [register, data])) s))"

text \<open>
  \<^verbatim>\<open>_values\<close>: the generator, run to its end by \<^verbatim>\<open>list(data)\<close> in \<^verbatim>\<open>_write\<close>; a read
  outside the buffer raises before anything is transferred.
\<close>

fun values_loop :: "int list \<Rightarrow> int \<Rightarrow> int list \<Rightarrow> error + int list" where
  "values_loop buf position [] = Inr []"
| "values_loop buf position (deviceId # ds) =
     (case py_getitem buf ((deviceId * NUM_DIGITS) + position) of
        Inl e \<Rightarrow> Inl e
      | Inr v \<Rightarrow>
          (case values_loop buf position ds of
             Inl e \<Rightarrow> Inl e
           | Inr rest \<Rightarrow> Inr ((position + MAX7219_REG_DIGIT0) # v # rest)))"

definition device_values :: "device \<Rightarrow> int \<Rightarrow> error + int list" where
  "device_values s position = values_loop (buffer s) position (py_range 0 (cascaded s))"

definition flush_step :: "int \<Rightarrow> device \<Rightarrow> outcome" where
  "flush_step posn s =
     (case device_values s posn of
        Inl e \<Rightarrow> Inl (e, s)
      | Inr data \<Rightarrow> Inr (device_write data s))"

definition flush :: "device \<Rightarrow> outcome" where
  "flush s = for_each (py_range 0 NUM_DIGITS) flush_step s"

definition brightness :: "int \<Rightarrow> device \<Rightarrow> outcome" where
  "brightness intensity s =
     (if \<not> (0 \<le> intensity \<and> intensity < 16) then Inl (AssertionError, s)
      else command MAX7219_REG_INTENSITY intensity s)"

definition set_byte :: "int \<Rightarrow> int \<Rightarrow> int \<Rightarrow> bool \<Rightarrow> device \<Rightarrow> outcome" where
  "set_byte deviceId position val redraw s =
     (if \<not> (0 \<le> deviceId \<and> deviceId < cascaded s) then Inl (AssertionError, s)
      else if \<not> (MAX7219_REG_DIGIT0 \<le> position \<and> position \<le> MAX7219_REG_DIGIT7)
      then Inl (AssertionError, s)
      else
        (case py_setitem (buffer s)
                ((deviceId * NUM_DIGITS) + position - MAX7219_REG_DIGIT0) val of
           Inl e \<Rightarrow> Inl (e, s)
         | Inr buf \<Rightarrow>
             (if redraw then flush (s\<lparr>buffer := buf\<rparr>) else Inr (s\<lparr>buffer := buf\<rparr>))))"

definition clear_device :: "int \<Rightarrow> device \<Rightarrow> outcome" where
  "clear_device deviceId s =
     for_each (py_range 0 NUM_DIGITS)
       (\<lambda>position. set_byte deviceId (position + MAX7219_REG_DIGIT0) 0 False) s"

definition clear :: "int option \<Rightarrow> device \<Rightarrow> outcome" where
  "clear deviceId s =
     (if \<not> (case deviceId of
               None \<Rightarrow> True
             | Some d \<Rightarrow> d = 0 \<or> (0 \<le> d \<and> d < cascaded s))
      then Inl (AssertionError, s)
      else
        (case for_each
                (case deviceId of
                   None \<Rightarrow> py_range 0 (cascaded s)
                 | Some d \<Rightarrow> py_range d (d + 1))
                clear_device s of
           Inl e \<Rightarrow> Inl e
         | Inr s' \<Rightarrow> flush s'))"

definition scroll_left :: "bool \<Rightarrow> device \<Rightarrow> outcome" where
  "scroll_left redraw s =
     (case py_delitem (buffer s) 0 of
        Inl e \<Rightarrow> Inl (e, s)
      | Inr buf \<Rightarrow>
          (if redraw then flush (s\<lparr>buffer := buf @ [0]\<rparr>) else Inr (s\<lparr>buffer := buf @ [0]\<rparr>)))"

definition scroll_right :: "bool \<Rightarrow> device \<Rightarrow> outcome" where
  "scroll_right redraw s =
     (case py_delitem (buffer s) (NUM_DIGITS - 1) of
        Inl e \<Rightarrow> Inl (e, s)
      | Inr buf \<Rightarrow>
          (if redraw then flush (s\<lparr>buffer := 0 # buf\<rparr>) else Inr (s\<lparr>buffer := 0 # buf\<rparr>)))"

text \<open>
  \<^verbatim>\<open>__init__\<close>: the bus numbers go to the transport unread. An exception leaves no
  object behind.
\<close>

definition init :: "int \<Rightarrow> error + device" where
  "init n =
     (if \<not> (n > 0) then Inl AssertionError
      else
        (case for_each
                [command MAX7219_REG_SCANLIMIT 7,
                 command MAX7219_REG_DECODEMODE 0,
                 command MAX7219_REG_DISPLAYTEST 0,
                 command MAX7219_REG_SHUTDOWN 1,
                 brightness 7,
                 clear None]
                (\<lambda>call. call)
                \<lparr>cascaded = n, buffer = replicate (nat (NUM_DIGITS * n)) 0, spi = []\<rparr> of
           Inl (e, s) \<Rightarrow> Inl e
         | Inr s \<Rightarrow> Inr s))"

subsection \<open>class Matrix\<close>

text \<open>
  The font module is not part of the sources at hand: the font is a parameter, a
  table from character codes to column values, and a missing entry raises.
\<close>

type_synonym font = "int \<rightharpoonup> int list"

fun letter_loop :: "int \<Rightarrow> int \<Rightarrow> int \<Rightarrow> int list \<Rightarrow> device \<Rightarrow> outcome" where
  "letter_loop deviceId asciiCode col [] s = Inr s"
| "letter_loop deviceId asciiCode col (val # vals) s =
     (if col > MAX7219_REG_DIGIT7
      then (case clear (Some deviceId) s of
              Inl e \<Rightarrow> Inl e
            | Inr s' \<Rightarrow> Inl (OverflowError asciiCode, s'))
      else (case set_byte deviceId col val False s of
              Inl e \<Rightarrow> Inl e
            | Inr s' \<Rightarrow> letter_loop deviceId asciiCode (col + 1) vals s'))"

definition letter :: "int \<Rightarrow> int \<Rightarrow> font \<Rightarrow> bool \<Rightarrow> device \<Rightarrow> outcome" where
  "letter deviceId asciiCode fnt redraw s =
     (if \<not> (0 \<le> asciiCode \<and> asciiCode < 256) then Inl (AssertionError, s)
      else
        (case fnt asciiCode of
           None \<Rightarrow> Inl (LookupError, s)
         | Some vals \<Rightarrow>
             (case letter_loop deviceId asciiCode MAX7219_REG_DIGIT0 vals s of
                Inl e \<Rightarrow> Inl e
              | Inr s' \<Rightarrow> (if redraw then flush s' else Inr s'))))"

definition scroll_up :: "bool \<Rightarrow> device \<Rightarrow> outcome" where
  "scroll_up redraw s =
     (if redraw then flush (s\<lparr>buffer := map (\<lambda>val. drop_bit 1 val) (buffer s)\<rparr>)
      else Inr (s\<lparr>buffer := map (\<lambda>val. drop_bit 1 val) (buffer s)\<rparr>))"

definition scroll_down :: "bool \<Rightarrow> device \<Rightarrow> outcome" where
  "scroll_down redraw s =
     (if redraw then flush (s\<lparr>buffer := map (\<lambda>val. push_bit 1 val) (buffer s)\<rparr>)
      else Inr (s\<lparr>buffer := map (\<lambda>val. push_bit 1 val) (buffer s)\<rparr>))"

definition pixel :: "int \<Rightarrow> int \<Rightarrow> int \<Rightarrow> bool \<Rightarrow> device \<Rightarrow> outcome" where
  "pixel x y val redraw s =
     (if \<not> (0 \<le> x \<and> x < int (length (buffer s))) then Inl (AssertionError, s)
      else if \<not> (0 \<le> y \<and> y < 8) then Inl (AssertionError, s)
      else
        (case py_getitem (buffer s) y of
           Inl e \<Rightarrow> Inl (e, s)
         | Inr old \<Rightarrow>
             (case py_setitem (buffer s) y
                     (if val \<noteq> 0 then old OR push_bit (nat x) 1
                      else old AND NOT (push_bit (nat x) 1)) of
                Inl e \<Rightarrow> Inl (e, s)
              | Inr buf \<Rightarrow>
                  (if redraw then flush (s\<lparr>buffer := buf\<rparr>) else Inr (s\<lparr>buffer := buf\<rparr>)))))"

subsection \<open>The buffer invariant and the expected bus traffic\<close>

text \<open>The buffer holds \<open>NUM_DIGITS\<close> bytes for each of at least one cascaded device.\<close>

definition wf :: "device \<Rightarrow> bool" where
  "wf s = (0 < cascaded s \<and> int (length (buffer s)) = NUM_DIGITS * cascaded s)"

text \<open>
  The transfer for column \<open>p\<close>: for every device in order, the register byte
  \<open>p + DIGIT0\<close>, then the byte of that device's column \<open>p\<close>.
\<close>

definition frame :: "device \<Rightarrow> nat \<Rightarrow> int list" where
  "frame s p =
     concat (map (\<lambda>d. [int p + MAX7219_REG_DIGIT0, buffer s ! (d * 8 + p)])
                 [0..<nat (cascaded s)])"

text \<open>The buffer with the eight bytes of device \<open>d\<close> set to zero.\<close>

definition zero_device :: "nat \<Rightarrow> int list \<Rightarrow> int list" where
  "zero_device d buf = take (d * 8) buf @ replicate 8 0 @ drop (d * 8 + 8) buf"

text \<open>The object after the flush that \<open>redraw\<close> asks for, on a buffer of the right length.\<close>

definition redrawn :: "bool \<Rightarrow> device \<Rightarrow> device" where
  "redrawn redraw s = (if redraw then s\<lparr>spi := spi s @ map (frame s) [0..<8]\<rparr> else s)"

subsection \<open>Sample states\<close>

definition demo4 :: device where
  "demo4 = \<lparr>cascaded = 4,
            buffer = [10, 11, 12, 13, 14, 15, 16, 17, 20, 21, 22, 23, 24, 25, 26, 27,
                      30, 31, 32, 33, 34, 35, 36, 37, 40, 41, 42, 43, 44, 45, 46, 47],
            spi = []\<rparr>"

definition demo2 :: device where
  "demo2 = \<lparr>cascaded = 2,
            buffer = [1, 2, 3, 4, 5, 6, 7, 8, 9, 10, 11, 12, 13, 14, 15, 16],
            spi = []\<rparr>"

definition blank1 :: device where
  "blank1 = \<lparr>cascaded = 1, buffer = [0, 0, 0, 0, 0, 0, 0, 0], spi = []\<rparr>"

definition top_row :: device where
  "top_row = \<lparr>cascaded = 1, buffer = [128, 0, 0, 0, 0, 0, 0, 0], spi = []\<rparr>"

definition wide_font :: font where
  "wide_font =
     [65 \<mapsto> [1, 2, 3, 4, 5, 6, 7, 8, 9],
      66 \<mapsto> [21, 22, 23],
      67 \<mapsto> [31, 32, 33, 34, 35, 36, 37, 38]]"

definition created1 :: device where
  "created1 = \<lparr>cascaded = 1, buffer = [0, 0, 0, 0, 0, 0, 0, 0],
               spi = [[11, 7], [9, 0], [15, 0], [12, 1], [10, 7],
                      [1, 0], [2, 0], [3, 0], [4, 0], [5, 0], [6, 0], [7, 0], [8, 0]]\<rparr>"

subsection \<open>Calls and reachable states\<close>

text \<open>The public methods that change the object, as calls with their arguments.\<close>

datatype call =
    Command int int
  | Clear "int option"
  | Flush
  | Brightness int
  | SetByte int int int bool
  | ScrollLeft bool
  | ScrollRight bool
  | Letter int int font bool
  | ScrollUp bool
  | ScrollDown bool
  | Pixel int int int bool

fun run :: "call \<Rightarrow> device \<Rightarrow> outcome" where
  "run (Command register data) s = command register data s"
| "run (Clear deviceId) s = clear deviceId s"
| "run Flush s = flush s"
| "run (Brightness intensity) s = brightness intensity s"
| "run (SetByte deviceId position val redraw) s = set_byte deviceId position val redraw s"
| "run (ScrollLeft redraw) s = scroll_left redraw s"
| "run (ScrollRight redraw) s = scroll_right redraw s"
| "run (Letter deviceId asciiCode fnt redraw) s = letter deviceId asciiCode fnt redraw s"
| "run (ScrollUp redraw) s = scroll_up redraw s"
| "run (ScrollDown redraw) s = scroll_down redraw s"
| "run (Pixel x y val redraw) s = pixel x y val redraw s"

fun is_scroll :: "call \<Rightarrow> bool" where
  "is_scroll (ScrollLeft redraw) = True"
| "is_scroll (ScrollRight redraw) = True"
| "is_scroll (ScrollUp redraw) = True"
| "is_scroll (ScrollDown redraw) = True"
| "is_scroll c = False"

text \<open>The object a caller holds after a call, whether it returned or raised.\<close>

fun after :: "outcome \<Rightarrow> device" where
  "after (Inl (e, s)) = s"
| "after (Inr s) = s"

text \<open>
  The states of an object built with \<open>n\<close> cascaded devices: the one the constructor
  returns, and the one after any call on a state already reached.
\<close>

inductive reachable :: "int \<Rightarrow> device \<Rightarrow> bool" where
  created: "init n = Inr s \<Longrightarrow> reachable n s"
| called: "reachable n s \<Longrightarrow> reachable n (after (run c s))"

definition keeps :: "device \<Rightarrow> outcome \<Rightarrow> bool" where
  "keeps s r = (wf (after r) \<and> cascaded (after r) = cascaded s)"

section \<open>Properties\<close>

subsection \<open>Python lists and loops\<close>

lemmas constants_defs =
  MAX7219_REG_DIGIT0_def MAX7219_REG_DIGIT7_def MAX7219_REG_DECODEMODE_def
  MAX7219_REG_INTENSITY_def MAX7219_REG_SCANLIMIT_def MAX7219_REG_SHUTDOWN_def
  MAX7219_REG_DISPLAYTEST_def NUM_DIGITS_def

lemma py_index_nat: "k < length xs \<Longrightarrow> py_index xs (int k) = Some k"
  by (simp add: py_index_def)

lemma py_getitem_nat: "k < length xs \<Longrightarrow> py_getitem xs (int k) = Inr (xs ! k)"
  by (simp add: py_getitem_def py_index_nat)

lemma py_setitem_nat: "k < length xs \<Longrightarrow> py_setitem xs (int k) v = Inr (xs[k := v])"
  by (simp add: py_setitem_def py_index_nat)

lemma py_delitem_nat:
  "k < length xs \<Longrightarrow> py_delitem xs (int k) = Inr (take k xs @ drop (Suc k) xs)"
  by (simp add: py_delitem_def py_index_nat)

lemma py_range_from_0: "py_range 0 b = map int [0..<nat b]"
  by (simp add: py_range_def)

lemma py_range_single: "py_range d (d + 1) = [d]"
  by (simp add: py_range_def)

lemma for_each_append:
  "for_each (xs @ ys) body s =
     (case for_each xs body s of Inl e \<Rightarrow> Inl e | Inr s' \<Rightarrow> for_each ys body s')"
  by (induction xs arbitrary: s) (auto split: sum.splits)

lemma values_loop_in_range:
  "\<forall>d \<in> set ds. d * 8 + p < length buf \<Longrightarrow>
     values_loop buf (int p) (map int ds) =
       Inr (concat (map (\<lambda>d. [int p + MAX7219_REG_DIGIT0, buf ! (d * 8 + p)]) ds))"
proof (induction ds)
  case Nil
  show ?case by simp
next
  case (Cons d ds)
  have idx: "int d * NUM_DIGITS + int p = int (d * 8 + p)"
    by (simp add: NUM_DIGITS_def)
  have "d * 8 + p < length buf"
    using Cons.prems by simp
  then have "py_getitem buf (int d * NUM_DIGITS + int p) = Inr (buf ! (d * 8 + p))"
    unfolding idx by (rule py_getitem_nat)
  with Cons show ?case by simp
qed

lemma device_values_wf:
  assumes "wf s" and "p < 8"
  shows "device_values s (int p) = Inr (frame s p)"
proof -
  have "\<forall>d \<in> set [0..<nat (cascaded s)]. d * 8 + p < length (buffer s)"
    using assms by (auto simp: wf_def NUM_DIGITS_def)
  then show ?thesis
    by (simp add: device_values_def py_range_from_0 frame_def values_loop_in_range)
qed

lemma frame_spi [simp]: "frame (s\<lparr>spi := t\<rparr>) p = frame s p"
  by (simp add: frame_def)

lemma wf_spi [simp]: "wf (s\<lparr>spi := t\<rparr>) = wf s"
  by (simp add: wf_def)

lemma flush_prefix:
  "wf s \<Longrightarrow> n \<le> 8 \<Longrightarrow>
     for_each (map int [0..<n]) flush_step s = Inr (s\<lparr>spi := spi s @ map (frame s) [0..<n]\<rparr>)"
proof (induction n)
  case 0
  show ?case by simp
next
  case (Suc n)
  then show ?case
    by (simp add: for_each_append flush_step_def device_values_wf device_write_def)
qed

lemma flush_wf:
  "wf s \<Longrightarrow> flush s = Inr (s\<lparr>spi := spi s @ map (frame s) [0..<8]\<rparr>)"
  using flush_prefix [of s 8] by (simp add: flush_def py_range_from_0 NUM_DIGITS_def)

lemma length_frame: "length (frame s p) = 2 * nat (cascaded s)"
  by (simp add: frame_def length_concat comp_def sum_list_triv)

lemma wf_buffer_same_length:
  "wf s \<Longrightarrow> length b = length (buffer s) \<Longrightarrow> wf (s\<lparr>buffer := b\<rparr>)"
  by (simp add: wf_def)

lemma set_byte_wf:
  assumes "wf s" and "d < nat (cascaded s)" and "j < 8"
  shows "set_byte (int d) (int j + MAX7219_REG_DIGIT0) v False s =
           Inr (s\<lparr>buffer := (buffer s)[d * 8 + j := v]\<rparr>)"
proof -
  have idx: "int d * NUM_DIGITS + (int j + MAX7219_REG_DIGIT0) - MAX7219_REG_DIGIT0 = int (d * 8 + j)"
    by (simp add: NUM_DIGITS_def)
  have "d * 8 + j < length (buffer s)"
    using assms by (auto simp: wf_def NUM_DIGITS_def)
  then have "py_setitem (buffer s) (int (d * 8 + j)) v = Inr ((buffer s)[d * 8 + j := v])"
    by (rule py_setitem_nat)
  moreover have "0 \<le> int d \<and> int d < cascaded s"
    using assms(2) by auto
  moreover have "MAX7219_REG_DIGIT0 \<le> int j + MAX7219_REG_DIGIT0 \<and>
                 int j + MAX7219_REG_DIGIT0 \<le> MAX7219_REG_DIGIT7"
    using assms(3) by (simp add: MAX7219_REG_DIGIT0_def MAX7219_REG_DIGIT7_def)
  ultimately show ?thesis
    unfolding set_byte_def idx by simp
qed

lemma update_after_block:
  assumes "i + length vs < length xs"
  shows "(take i xs @ vs @ drop (i + length vs) xs)[i + length vs := v] =
           take i xs @ (vs @ [v]) @ drop (i + length vs + 1) xs"
proof -
  have "drop (i + length vs) xs = xs ! (i + length vs) # drop (i + length vs + 1) xs"
    using assms by (simp add: Cons_nth_drop_Suc)
  then show ?thesis
    using assms by (simp add: list_update_append)
qed

lemma clear_device_prefix:
  assumes "wf s" and "d < nat (cascaded s)"
  shows "n \<le> 8 \<Longrightarrow>
     for_each (map int [0..<n])
       (\<lambda>position. set_byte (int d) (position + MAX7219_REG_DIGIT0) 0 False) s =
     Inr (s\<lparr>buffer := take (d * 8) (buffer s) @ replicate n 0 @ drop (d * 8 + n) (buffer s)\<rparr>)"
proof (induction n)
  case 0
  show ?case by simp
next
  case (Suc n)
  let ?b = "take (d * 8) (buffer s) @ replicate n 0 @ drop (d * 8 + n) (buffer s)"
  let ?s = "s\<lparr>buffer := ?b\<rparr>"
  have len: "d * 8 + n < length (buffer s)"
    using assms Suc.prems by (auto simp: wf_def NUM_DIGITS_def)
  have "length ?b = length (buffer s)"
    using len by simp
  then have "wf ?s"
    using assms(1) by (rule wf_buffer_same_length [rotated])
  moreover have "d < nat (cascaded ?s)"
    using assms(2) by simp
  moreover have "n < 8"
    using Suc.prems by simp
  ultimately have step: "set_byte (int d) (int n + MAX7219_REG_DIGIT0) 0 False ?s =
      Inr (?s\<lparr>buffer := (buffer ?s)[d * 8 + n := 0]\<rparr>)"
    by (rule set_byte_wf)
  have upd: "?b[d * 8 + n := 0] =
      take (d * 8) (buffer s) @ replicate (Suc n) 0 @ drop (d * 8 + Suc n) (buffer s)"
    using update_after_block [of "d * 8" "replicate n 0" "buffer s" 0] len
    by (simp add: replicate_append_same)
  from Suc show ?case
    by (simp add: for_each_append step upd)
qed

lemma clear_device_wf:
  assumes "wf s" and "d < nat (cascaded s)"
  shows "clear_device (int d) s = Inr (s\<lparr>buffer := zero_device d (buffer s)\<rparr>)"
  using clear_device_prefix [OF assms, of 8]
  by (simp add: clear_device_def py_range_from_0 NUM_DIGITS_def zero_device_def)

lemma length_zero_device:
  "d * 8 + 8 \<le> length buf \<Longrightarrow> length (zero_device d buf) = length buf"
  by (simp add: zero_device_def)

lemma clear_all_prefix:
  assumes "wf s"
  shows "n \<le> nat (cascaded s) \<Longrightarrow>
     for_each (map int [0..<n]) clear_device s =
     Inr (s\<lparr>buffer := replicate (n * 8) 0 @ drop (n * 8) (buffer s)\<rparr>)"
proof (induction n)
  case 0
  show ?case by simp
next
  case (Suc n)
  let ?b = "replicate (n * 8) 0 @ drop (n * 8) (buffer s)"
  let ?s = "s\<lparr>buffer := ?b\<rparr>"
  have len: "n * 8 + 8 \<le> length (buffer s)"
    using assms Suc.prems by (auto simp: wf_def NUM_DIGITS_def)
  have "length ?b = length (buffer s)"
    using len by simp
  then have "wf ?s"
    using assms by (rule wf_buffer_same_length [rotated])
  moreover have "n < nat (cascaded ?s)"
    using Suc.prems by simp
  ultimately have step: "clear_device (int n) ?s = Inr (?s\<lparr>buffer := zero_device n (buffer ?s)\<rparr>)"
    by (rule clear_device_wf)
  have upd: "zero_device n ?b = replicate (Suc n * 8) 0 @ drop (Suc n * 8) (buffer s)"
    using len by (simp add: zero_device_def replicate_add [symmetric] add.commute)
  from Suc show ?case
    by (simp add: for_each_append step upd del: replicate_Suc)
qed

lemma clear_all_wf:
  assumes "wf s"
  shows "for_each (py_range 0 (cascaded s)) clear_device s =
           Inr (s\<lparr>buffer := replicate (length (buffer s)) 0\<rparr>)"
proof -
  have "nat (cascaded s) * 8 = length (buffer s)"
    using assms by (auto simp: wf_def NUM_DIGITS_def)
  then show ?thesis
    using clear_all_prefix [OF assms, of "nat (cascaded s)"]
    by (simp add: py_range_from_0)
qed

subsection \<open>The claims\<close>

text \<open>
  Claim C4. On a buffer of \<open>8 * cascaded\<close> bytes, \<open>flush\<close> makes exactly eight
  transfers, one per column position 0..7 in order; the transfer for position \<open>p\<close>
  gives, for every device in order, the register byte \<open>p + DIGIT0\<close> and then the byte
  \<open>buffer[deviceId * 8 + p]\<close>, so it is \<open>2 * cascaded\<close> bytes long. The buffer is
  not changed.
\<close>

theorem flush_transfers:
  assumes "wf s"
  shows "flush s = Inr (s\<lparr>spi := spi s @ map (frame s) [0..<8]\<rparr>) \<and>
         length (map (frame s) [0..<8]) = 8 \<and>
         (\<forall>p. int (length (frame s p)) = 2 * cascaded s)"
proof -
  have "0 < cascaded s"
    using assms by (simp add: wf_def)
  then have "\<forall>p. int (length (frame s p)) = 2 * cascaded s"
    by (simp add: length_frame)
  then show ?thesis
    using flush_wf [OF assms] by simp
qed

theorem flush_transfers_witness:
  "wf demo4 \<and>
   flush demo4 = Inr (demo4\<lparr>spi :=
     [[1, 10, 1, 20, 1, 30, 1, 40], [2, 11, 2, 21, 2, 31, 2, 41],
      [3, 12, 3, 22, 3, 32, 3, 42], [4, 13, 4, 23, 4, 33, 4, 43],
      [5, 14, 5, 24, 5, 34, 5, 44], [6, 15, 6, 25, 6, 35, 6, 45],
      [7, 16, 7, 26, 7, 36, 7, 46], [8, 17, 8, 27, 8, 37, 8, 47]]\<rparr>)"
proof -
  have w: "wf demo4"
    by (simp add: wf_def demo4_def NUM_DIGITS_def)
  have u8: "[0..<8] = [0, 1, 2, 3, 4, 5, 6, 7]"
    by (simp add: upt_rec)
  have u4: "[0..<4] = [0, 1, 2, 3]"
    by (simp add: upt_rec)
  show ?thesis
    using w flush_transfers [OF w]
    by (simp add: u8 u4 frame_def demo4_def MAX7219_REG_DIGIT0_def)
qed

text \<open>
  Claim C7. For a register in \<open>[DECODEMODE, DISPLAYTEST]\<close> and at least one device,
  \<open>command\<close> makes exactly one transfer, the pair (register, data) repeated once per
  device; for any other register the assertion fails and nothing is transferred.
\<close>

theorem command_transfer:
  "(MAX7219_REG_DECODEMODE \<le> register \<and> register \<le> MAX7219_REG_DISPLAYTEST \<and> 1 \<le> cascaded s \<longrightarrow>
      (\<exists>t. command register data s = Inr (s\<lparr>spi := spi s @ [t]\<rparr>) \<and>
           t = concat (replicate (nat (cascaded s)) [register, data]) \<and>
           int (length t) = 2 * cascaded s \<and>
           (\<forall>k < nat (cascaded s). t ! (2 * k) = register \<and> t ! (2 * k + 1) = data))) \<and>
   (\<not> (MAX7219_REG_DECODEMODE \<le> register \<and> register \<le> MAX7219_REG_DISPLAYTEST) \<longrightarrow>
      command register data s = Inl (AssertionError, s))"
proof -
  have nth: "k < n \<Longrightarrow> concat (replicate n [a, b]) ! (2 * k) = a \<and>
                      concat (replicate n [a, b]) ! Suc (2 * k) = b" for k n and a b :: int
  proof (induction n arbitrary: k)
    case 0
    then show ?case by simp
  next
    case (Suc n)
    then show ?case by (cases k) simp_all
  qed
  have len: "length (concat (replicate n [a, b])) = 2 * n" for n and a b :: int
    by (induction n) simp_all
  show ?thesis
    by (auto simp: command_def device_write_def nth len)
qed

theorem command_transfer_witness:
  "MAX7219_REG_DECODEMODE \<le> 10 \<and> 10 \<le> MAX7219_REG_DISPLAYTEST \<and>
   command 10 7 \<lparr>cascaded = 2, buffer = replicate 16 0, spi = []\<rparr> =
     Inr \<lparr>cascaded = 2, buffer = replicate 16 0, spi = [[10, 7, 10, 7]]\<rparr> \<and>
   \<not> (MAX7219_REG_DECODEMODE \<le> 8 \<and> 8 \<le> MAX7219_REG_DISPLAYTEST) \<and>
   command 8 7 \<lparr>cascaded = 2, buffer = replicate 16 0, spi = []\<rparr> =
     Inl (AssertionError, \<lparr>cascaded = 2, buffer = replicate 16 0, spi = []\<rparr>)"
  using command_transfer [of 10 "\<lparr>cascaded = 2, buffer = replicate 16 0, spi = []\<rparr>" 7]
        command_transfer [of 8 "\<lparr>cascaded = 2, buffer = replicate 16 0, spi = []\<rparr>" 7]
  by (simp add: MAX7219_REG_DECODEMODE_def MAX7219_REG_DISPLAYTEST_def numeral_2_eq_2)

text \<open>
  Claim C9. For a level outside \<open>[0, 16)\<close>, \<open>brightness\<close> fails its assertion and
  leaves the object as it was: no transfer, no change of the buffer. For a level inside,
  it is \<open>command\<close> on the INTENSITY register, one transfer.
\<close>

theorem brightness_checked:
  "(\<not> (0 \<le> v \<and> v < 16) \<longrightarrow> brightness v s = Inl (AssertionError, s)) \<and>
   (0 \<le> v \<and> v < 16 \<longrightarrow>
      brightness v s = command MAX7219_REG_INTENSITY v s \<and>
      brightness v s =
        Inr (s\<lparr>spi := spi s @ [concat (replicate (nat (cascaded s)) [MAX7219_REG_INTENSITY, v])]\<rparr>))"
  by (simp add: brightness_def command_def device_write_def constants_defs)

theorem brightness_checked_witness:
  "\<not> (0 \<le> (16::int) \<and> (16::int) < 16) \<and>
   brightness 16 \<lparr>cascaded = 1, buffer = replicate 8 0, spi = []\<rparr> =
     Inl (AssertionError, \<lparr>cascaded = 1, buffer = replicate 8 0, spi = []\<rparr>) \<and>
   (0 \<le> (15::int) \<and> (15::int) < 16) \<and>
   brightness 15 \<lparr>cascaded = 1, buffer = replicate 8 0, spi = []\<rparr> =
     Inr \<lparr>cascaded = 1, buffer = replicate 8 0, spi = [[10, 15]]\<rparr>"
  using brightness_checked [of 16 "\<lparr>cascaded = 1, buffer = replicate 8 0, spi = []\<rparr>"]
        brightness_checked [of 15 "\<lparr>cascaded = 1, buffer = replicate 8 0, spi = []\<rparr>"]
  by (simp add: constants_defs command_def device_write_def)

lemma maybe_flush_wf:
  "wf s \<Longrightarrow> (if redraw then flush s else Inr s) = Inr (redrawn redraw s)"
  by (simp add: redrawn_def flush_wf)

lemma redrawn_fields [simp]:
  "cascaded (redrawn r s) = cascaded s" "buffer (redrawn r s) = buffer s"
  by (simp_all add: redrawn_def)

lemma wf_redrawn [simp]: "wf (redrawn r s) = wf s"
  by (simp add: redrawn_def)

lemma zero_device_nth:
  assumes "k * 8 + 8 \<le> length buf" and "i < length buf"
  shows "zero_device k buf ! i = (if k * 8 \<le> i \<and> i < k * 8 + 8 then 0 else buf ! i)"
  using assms by (auto simp: zero_device_def nth_append)

lemma clear_Some_wf:
  assumes "wf s" and "0 \<le> d" and "d < cascaded s"
  shows "clear (Some d) s = Inr (redrawn True (s\<lparr>buffer := zero_device (nat d) (buffer s)\<rparr>))"
proof -
  have k: "nat d < nat (cascaded s)" and d: "int (nat d) = d"
    using assms by auto
  have len: "nat d * 8 + 8 \<le> length (buffer s)"
    using assms by (auto simp: wf_def NUM_DIGITS_def)
  have "clear_device d s = Inr (s\<lparr>buffer := zero_device (nat d) (buffer s)\<rparr>)"
    using clear_device_wf [OF assms(1) k] by (simp only: d)
  moreover have "wf (s\<lparr>buffer := zero_device (nat d) (buffer s)\<rparr>)"
    using assms(1) len by (simp add: wf_buffer_same_length length_zero_device)
  ultimately show ?thesis
    using assms(2,3) by (simp add: clear_def py_range_single flush_wf redrawn_def)
qed

lemma clear_None_wf:
  assumes "wf s"
  shows "clear None s = Inr (redrawn True (s\<lparr>buffer := replicate (length (buffer s)) 0\<rparr>))"
proof -
  have "wf (s\<lparr>buffer := replicate (length (buffer s)) 0\<rparr>)"
    using assms by (simp add: wf_buffer_same_length)
  then show ?thesis
    by (simp add: clear_def clear_all_wf [OF assms] flush_wf redrawn_def)
qed

text \<open>
  Claim C8. For a device id \<open>k\<close> in range, \<open>clear(deviceId=k)\<close> sets exactly the bytes
  at indices \<open>[k * 8, k * 8 + 8)\<close> to zero and leaves every other byte as it was;
  \<open>clear()\<close> sets the whole buffer to zero; both are followed by exactly one flush, of
  the cleared buffer.
\<close>

theorem clear_zeroes:
  assumes "wf s"
  shows "(0 \<le> k \<and> k < cascaded s \<longrightarrow>
           clear (Some k) s = flush (s\<lparr>buffer := zero_device (nat k) (buffer s)\<rparr>) \<and>
           clear (Some k) s =
             Inr (s\<lparr>buffer := zero_device (nat k) (buffer s),
                    spi := spi s @ map (frame (s\<lparr>buffer := zero_device (nat k) (buffer s)\<rparr>)) [0..<8]\<rparr>) \<and>
           length (zero_device (nat k) (buffer s)) = length (buffer s) \<and>
           (\<forall>i < length (buffer s).
              zero_device (nat k) (buffer s) ! i =
                (if nat k * 8 \<le> i \<and> i < nat k * 8 + 8 then 0 else buffer s ! i))) \<and>
         clear None s = flush (s\<lparr>buffer := replicate (length (buffer s)) 0\<rparr>) \<and>
         clear None s =
           Inr (s\<lparr>buffer := replicate (length (buffer s)) 0,
                  spi := spi s @ map (frame (s\<lparr>buffer := replicate (length (buffer s)) 0\<rparr>)) [0..<8]\<rparr>)"
proof -
  have all: "clear None s =
      Inr (s\<lparr>buffer := replicate (length (buffer s)) 0,
             spi := spi s @ map (frame (s\<lparr>buffer := replicate (length (buffer s)) 0\<rparr>)) [0..<8]\<rparr>)"
    using clear_None_wf [OF assms] by (simp add: redrawn_def)
  have "wf (s\<lparr>buffer := replicate (length (buffer s)) 0\<rparr>)"
    using assms by (simp add: wf_buffer_same_length)
  then have all_flush: "clear None s = flush (s\<lparr>buffer := replicate (length (buffer s)) 0\<rparr>)"
    using all by (simp add: flush_wf)
  have one: "clear (Some k) s = flush (s\<lparr>buffer := zero_device (nat k) (buffer s)\<rparr>) \<and>
           clear (Some k) s =
             Inr (s\<lparr>buffer := zero_device (nat k) (buffer s),
                    spi := spi s @ map (frame (s\<lparr>buffer := zero_device (nat k) (buffer s)\<rparr>)) [0..<8]\<rparr>) \<and>
           length (zero_device (nat k) (buffer s)) = length (buffer s) \<and>
           (\<forall>i < length (buffer s).
              zero_device (nat k) (buffer s) ! i =
                (if nat k * 8 \<le> i \<and> i < nat k * 8 + 8 then 0 else buffer s ! i))"
    if k: "0 \<le> k" "k < cascaded s"
  proof -
    have len: "nat k * 8 + 8 \<le> length (buffer s)"
      using assms k by (auto simp: wf_def NUM_DIGITS_def)
    have w: "wf (s\<lparr>buffer := zero_device (nat k) (buffer s)\<rparr>)"
      using assms len by (simp add: wf_buffer_same_length length_zero_device)
    show ?thesis
      using clear_Some_wf [OF assms k] len w
      by (simp add: redrawn_def flush_wf length_zero_device zero_device_nth)
  qed
  show ?thesis
    using all all_flush one by blast
qed

theorem clear_zeroes_witness:
  "wf demo2 \<and> (0::int) \<le> 1 \<and> 1 < cascaded demo2 \<and>
   clear (Some 1) demo2 =
     Inr \<lparr>cascaded = 2, buffer = [1, 2, 3, 4, 5, 6, 7, 8, 0, 0, 0, 0, 0, 0, 0, 0],
          spi = [[1, 1, 1, 0], [2, 2, 2, 0], [3, 3, 3, 0], [4, 4, 4, 0],
                 [5, 5, 5, 0], [6, 6, 6, 0], [7, 7, 7, 0], [8, 8, 8, 0]]\<rparr> \<and>
   clear None demo2 =
     Inr \<lparr>cascaded = 2, buffer = [0, 0, 0, 0, 0, 0, 0, 0, 0, 0, 0, 0, 0, 0, 0, 0],
          spi = [[1, 0, 1, 0], [2, 0, 2, 0], [3, 0, 3, 0], [4, 0, 4, 0],
                 [5, 0, 5, 0], [6, 0, 6, 0], [7, 0, 7, 0], [8, 0, 8, 0]]\<rparr>"
proof -
  have w: "wf demo2"
    by (simp add: wf_def demo2_def NUM_DIGITS_def)
  have u8: "[0..<8] = [0, 1, 2, 3, 4, 5, 6, 7]"
    by (simp add: upt_rec)
  have u2: "[0..<2] = [0, 1]"
    by (simp add: upt_rec)
  have r16: "replicate 16 (0::int) = [0, 0, 0, 0, 0, 0, 0, 0, 0, 0, 0, 0, 0, 0, 0, 0]"
    by (simp add: numeral_eq_Suc)
  have r8: "replicate 8 (0::int) = [0, 0, 0, 0, 0, 0, 0, 0]"
    by (simp add: numeral_eq_Suc)
  have k: "(0::int) \<le> 1 \<and> 1 < cascaded demo2"
    by (simp add: demo2_def)
  have one: "clear (Some 1) demo2 =
      Inr (demo2\<lparr>buffer := zero_device (nat 1) (buffer demo2),
             spi := spi demo2 @
               map (frame (demo2\<lparr>buffer := zero_device (nat 1) (buffer demo2)\<rparr>)) [0..<8]\<rparr>)"
    using clear_zeroes [OF w, of 1] k by blast
  have all: "clear None demo2 =
      Inr (demo2\<lparr>buffer := replicate (length (buffer demo2)) 0,
             spi := spi demo2 @
               map (frame (demo2\<lparr>buffer := replicate (length (buffer demo2)) 0\<rparr>)) [0..<8]\<rparr>)"
    using clear_zeroes [OF w, of 1] by blast
  show ?thesis
    unfolding one all using w k
    by (simp add: u8 u2 r16 r8 frame_def zero_device_def demo2_def MAX7219_REG_DIGIT0_def)
qed

lemma scroll_left_wf:
  assumes "wf s"
  shows "scroll_left redraw s = Inr (redrawn redraw (s\<lparr>buffer := drop 1 (buffer s) @ [0]\<rparr>))"
proof -
  have len: "0 < length (buffer s)"
    using assms by (auto simp: wf_def NUM_DIGITS_def)
  then have "py_delitem (buffer s) 0 = Inr (drop 1 (buffer s))"
    using py_delitem_nat [of 0 "buffer s"] by simp
  moreover have "wf (s\<lparr>buffer := drop 1 (buffer s) @ [0]\<rparr>)"
    using assms len by (simp add: wf_buffer_same_length)
  ultimately show ?thesis
    by (simp add: scroll_left_def maybe_flush_wf)
qed

lemma scroll_right_wf:
  assumes "wf s"
  shows "scroll_right redraw s =
           Inr (redrawn redraw (s\<lparr>buffer := 0 # take 7 (buffer s) @ drop 8 (buffer s)\<rparr>))"
proof -
  have len: "8 \<le> length (buffer s)"
    using assms by (auto simp: wf_def NUM_DIGITS_def)
  then have "py_delitem (buffer s) (int 7) = Inr (take 7 (buffer s) @ drop (Suc 7) (buffer s))"
    by (intro py_delitem_nat) simp
  then have "py_delitem (buffer s) (NUM_DIGITS - 1) = Inr (take 7 (buffer s) @ drop 8 (buffer s))"
    by (simp add: NUM_DIGITS_def)
  moreover have "wf (s\<lparr>buffer := 0 # take 7 (buffer s) @ drop 8 (buffer s)\<rparr>)"
    using assms len by (simp add: wf_buffer_same_length)
  ultimately show ?thesis
    by (simp add: scroll_right_def maybe_flush_wf)
qed

lemma scroll_up_wf:
  assumes "wf s"
  shows "scroll_up redraw s =
           Inr (redrawn redraw (s\<lparr>buffer := map (\<lambda>val. drop_bit 1 val) (buffer s)\<rparr>))"
proof -
  have "wf (s\<lparr>buffer := map (\<lambda>val. drop_bit 1 val) (buffer s)\<rparr>)"
    using assms by (simp add: wf_buffer_same_length)
  then show ?thesis
    unfolding scroll_up_def by (rule maybe_flush_wf)
qed

lemma scroll_down_wf:
  assumes "wf s"
  shows "scroll_down redraw s =
           Inr (redrawn redraw (s\<lparr>buffer := map (\<lambda>val. push_bit 1 val) (buffer s)\<rparr>))"
proof -
  have "wf (s\<lparr>buffer := map (\<lambda>val. push_bit 1 val) (buffer s)\<rparr>)"
    using assms by (simp add: wf_buffer_same_length)
  then show ?thesis
    unfolding scroll_down_def by (rule maybe_flush_wf)
qed

text \<open>
  Claim C1, at a failing input. On one blank device, \<open>pixel(0, 1, 1)\<close> should set bit 1
  of \<open>buffer[0]\<close>; the code indexes the buffer with \<open>y\<close> and shifts by \<open>x\<close>, so it sets
  bit 0 of \<open>buffer[1]\<close> and leaves \<open>buffer[0]\<close> at zero.
\<close>

theorem pixel_swaps_coordinates:
  "pixel 0 1 1 False blank1 = Inr (blank1\<lparr>buffer := [0, 1, 0, 0, 0, 0, 0, 0]\<rparr>)"
  by (simp add: pixel_def blank1_def py_getitem_def py_setitem_def py_index_def)

text \<open>
  Claim C2, at a failing input. With two devices, \<open>scroll_right\<close> should drop the last
  byte of the buffer, at index 15; the code deletes index \<open>NUM_DIGITS - 1 = 7\<close>, so the
  byte 8 is lost and the byte 16 stays.
\<close>

theorem scroll_right_deletes_index_7:
  "scroll_right False demo2 =
     Inr (demo2\<lparr>buffer := [0, 1, 2, 3, 4, 5, 6, 7, 9, 10, 11, 12, 13, 14, 15, 16]\<rparr>)"
  by (simp add: scroll_right_def demo2_def py_delitem_def py_index_def NUM_DIGITS_def)

text \<open>
  Claim C3, at a failing input. On one device whose first byte is 128, bit 7 alone,
  \<open>scroll_down\<close> should push that bit out of the rows 0..7 and leave the byte at 0;
  the code shifts with no mask to eight bits, so the buffer holds 256, and a following
  \<open>scroll_up\<close> brings the lost row back as 128.
\<close>

theorem scroll_down_keeps_shifted_bit:
  "scroll_down False top_row = Inr (top_row\<lparr>buffer := [256, 0, 0, 0, 0, 0, 0, 0]\<rparr>) \<and>
   scroll_up False (top_row\<lparr>buffer := [256, 0, 0, 0, 0, 0, 0, 0]\<rparr>) = Inr top_row"
  by (simp add: scroll_down_def scroll_up_def top_row_def drop_bit_eq_div push_bit_eq_mult)

lemma block_after_update:
  assumes "i < length xs"
  shows "take (Suc i) (xs[i := v]) @ ys @ drop (Suc i + n) (xs[i := v]) =
           take i xs @ (v # ys) @ drop (i + Suc n) xs"
  using assms by (simp add: take_Suc_conv_app_nth)

lemma letter_loop_block:
  "wf s \<Longrightarrow> d < nat (cascaded s) \<Longrightarrow> j + length vs \<le> 8 \<Longrightarrow>
     letter_loop (int d) code (int j + MAX7219_REG_DIGIT0) (vs @ rest) s =
     letter_loop (int d) code (int (j + length vs) + MAX7219_REG_DIGIT0) rest
       (s\<lparr>buffer := take (d * 8 + j) (buffer s) @ vs @ drop (d * 8 + j + length vs) (buffer s)\<rparr>)"
proof (induction vs arbitrary: j s)
  case Nil
  then show ?case by simp
next
  case (Cons v vs)
  let ?s = "s\<lparr>buffer := (buffer s)[d * 8 + j := v]\<rparr>"
  have j: "j < 8"
    using Cons.prems(3) by simp
  have len: "d * 8 + j < length (buffer s)"
    using Cons.prems(1,2) j by (auto simp: wf_def NUM_DIGITS_def)
  have col: "\<not> int j + MAX7219_REG_DIGIT0 > MAX7219_REG_DIGIT7"
    using j by (simp add: MAX7219_REG_DIGIT0_def MAX7219_REG_DIGIT7_def)
  have step: "set_byte (int d) (int j + MAX7219_REG_DIGIT0) v False s = Inr ?s"
    using Cons.prems(1,2) j by (rule set_byte_wf)
  have w: "wf ?s"
    using Cons.prems(1) by (simp add: wf_buffer_same_length)
  have d: "d < nat (cascaded ?s)"
    using Cons.prems(2) by simp
  have n: "Suc j + length vs \<le> 8"
    using Cons.prems(3) by simp
  have next_col: "int j + MAX7219_REG_DIGIT0 + 1 = int (Suc j) + MAX7219_REG_DIGIT0"
    by simp
  have buf: "take (d * 8 + Suc j) (buffer ?s) @ vs @ drop (d * 8 + Suc j + length vs) (buffer ?s) =
      take (d * 8 + j) (buffer s) @ (v # vs) @ drop (d * 8 + j + length (v # vs)) (buffer s)"
    using block_after_update [OF len, of v vs "length vs"] by (simp add: add.assoc)
  have "letter_loop (int d) code (int j + MAX7219_REG_DIGIT0) ((v # vs) @ rest) s =
      letter_loop (int d) code (int (Suc j) + MAX7219_REG_DIGIT0) (vs @ rest) ?s"
    using col step by (simp only: append_Cons letter_loop.simps next_col if_False sum.case)
  also have "\<dots> = letter_loop (int d) code (int (Suc j + length vs) + MAX7219_REG_DIGIT0) rest
      (?s\<lparr>buffer := take (d * 8 + Suc j) (buffer ?s) @ vs @
                       drop (d * 8 + Suc j + length vs) (buffer ?s)\<rparr>)"
    using w d n by (rule Cons.IH)
  finally show ?case
    by (simp only: buf) simp
qed

lemma letter_loop_fits:
  assumes "wf s" and "d < nat (cascaded s)" and "length vs \<le> 8"
  shows "letter_loop (int d) code MAX7219_REG_DIGIT0 vs s =
           Inr (s\<lparr>buffer := take (d * 8) (buffer s) @ vs @ drop (d * 8 + length vs) (buffer s)\<rparr>)"
  using letter_loop_block [OF assms(1,2), of 0 vs code "[]"] assms(3) by simp

lemma zero_device_block:
  assumes "length vs = 8" and "d * 8 + 8 \<le> length buf"
  shows "zero_device d (take (d * 8) buf @ vs @ drop (d * 8 + 8) buf) = zero_device d buf"
  using assms by (simp add: zero_device_def)

lemma letter_loop_overflow:
  assumes "wf s" and "d < nat (cascaded s)" and "8 < length vs"
  shows "letter_loop (int d) code MAX7219_REG_DIGIT0 vs s =
           Inl (OverflowError code, redrawn True (s\<lparr>buffer := zero_device d (buffer s)\<rparr>))"
proof -
  let ?b = "take (d * 8) (buffer s) @ take 8 vs @ drop (d * 8 + 8) (buffer s)"
  let ?s = "s\<lparr>buffer := ?b\<rparr>"
  obtain r rs where rest: "drop 8 vs = r # rs"
    using assms(3) by (cases "drop 8 vs") simp_all
  have l8: "length (take 8 vs) = 8"
    using assms(3) by simp
  have len: "d * 8 + 8 \<le> length (buffer s)"
    using assms(1,2) by (auto simp: wf_def NUM_DIGITS_def)
  have w: "wf ?s"
    using assms(1) len l8 by (simp add: wf_buffer_same_length)
  have split: "take 8 vs @ r # rs = vs"
    using rest append_take_drop_id [of 8 vs] by simp
  have "letter_loop (int d) code (int 0 + MAX7219_REG_DIGIT0) (take 8 vs @ r # rs) s =
      letter_loop (int d) code (int (0 + length (take 8 vs)) + MAX7219_REG_DIGIT0) (r # rs)
        (s\<lparr>buffer := take (d * 8 + 0) (buffer s) @ take 8 vs @
                       drop (d * 8 + 0 + length (take 8 vs)) (buffer s)\<rparr>)"
    using assms(1,2) by (rule letter_loop_block) (simp add: l8)
  then have "letter_loop (int d) code MAX7219_REG_DIGIT0 vs s =
      letter_loop (int d) code (8 + MAX7219_REG_DIGIT0) (r # rs) ?s"
    unfolding l8 split by (simp del: letter_loop.simps)
  also have "\<dots> = (case clear (Some (int d)) ?s of
                     Inl e \<Rightarrow> Inl e
                   | Inr s' \<Rightarrow> Inl (OverflowError code, s'))"
    by (simp add: MAX7219_REG_DIGIT0_def MAX7219_REG_DIGIT7_def)
  also have "clear (Some (int d)) ?s =
      Inr (redrawn True (?s\<lparr>buffer := zero_device (nat (int d)) (buffer ?s)\<rparr>))"
    using w assms(2) by (intro clear_Some_wf) simp_all
  finally show ?thesis
    using zero_device_block [OF l8 len] by simp
qed

text \<open>
  Claim C6. For a device id \<open>d\<close> in range, a character code in \<open>[0, 256)\<close> and a font
  whose entry for the code has more than eight column values, \<open>letter\<close> leaves the eight
  bytes of device \<open>d\<close> at zero, the columns it had written gone, every other byte as it
  was, flushes once, and fails with the overflow error that carries the code. With eight
  or fewer column values it does not fail.
\<close>

theorem letter_glyph_overflow:
  assumes "wf s" and "0 \<le> d" and "d < cascaded s"
    and "0 \<le> code" and "code < 256" and "fnt code = Some cols"
  shows "(8 < length cols \<longrightarrow>
            letter d code fnt redraw s =
              Inl (OverflowError code,
                   redrawn True (s\<lparr>buffer := zero_device (nat d) (buffer s)\<rparr>)) \<and>
            take 8 (drop (nat d * 8) (zero_device (nat d) (buffer s))) = replicate 8 0) \<and>
         (length cols \<le> 8 \<longrightarrow> (\<exists>s'. letter d code fnt redraw s = Inr s'))"
proof -
  have k: "nat d < nat (cascaded s)" and d: "int (nat d) = d"
    using assms(2,3) by auto
  have len: "nat d * 8 + 8 \<le> length (buffer s)"
    using assms(1) k by (auto simp: wf_def NUM_DIGITS_def)
  have zeros: "take 8 (drop (nat d * 8) (zero_device (nat d) (buffer s))) = replicate 8 0"
    using len by (simp add: zero_device_def)
  have over: "letter d code fnt redraw s =
      Inl (OverflowError code, redrawn True (s\<lparr>buffer := zero_device (nat d) (buffer s)\<rparr>))"
    if "8 < length cols"
    using letter_loop_overflow [OF assms(1) k that, of code, unfolded d] assms(4-6)
    by (simp add: letter_def)
  have fits: "\<exists>s'. letter d code fnt redraw s = Inr s'" if "length cols \<le> 8"
  proof -
    let ?s = "s\<lparr>buffer := take (nat d * 8) (buffer s) @ cols @
                           drop (nat d * 8 + length cols) (buffer s)\<rparr>"
    have "wf ?s"
      using assms(1) len that by (simp add: wf_buffer_same_length)
    then have "(if redraw then flush ?s else Inr ?s) = Inr (redrawn redraw ?s)"
      by (rule maybe_flush_wf)
    then show ?thesis
      using letter_loop_fits [OF assms(1) k that, of code, unfolded d] assms(4-6)
      by (simp add: letter_def)
  qed
  show ?thesis
    using over fits zeros by blast
qed

theorem letter_glyph_overflow_witness:
  "wf demo2 \<and> (0::int) \<le> 1 \<and> 1 < cascaded demo2 \<and> (0::int) \<le> 65 \<and> (65::int) < 256 \<and>
   wide_font 65 = Some [1, 2, 3, 4, 5, 6, 7, 8, 9] \<and>
   letter 1 65 wide_font False demo2 =
     Inl (OverflowError 65,
          \<lparr>cascaded = 2, buffer = [1, 2, 3, 4, 5, 6, 7, 8, 0, 0, 0, 0, 0, 0, 0, 0],
           spi = [[1, 1, 1, 0], [2, 2, 2, 0], [3, 3, 3, 0], [4, 4, 4, 0],
                  [5, 5, 5, 0], [6, 6, 6, 0], [7, 7, 7, 0], [8, 8, 8, 0]]\<rparr>) \<and>
   wide_font 67 = Some [31, 32, 33, 34, 35, 36, 37, 38] \<and>
   (\<exists>s'. letter 1 67 wide_font False demo2 = Inr s')"
proof -
  have w: "wf demo2"
    by (simp add: wf_def demo2_def NUM_DIGITS_def)
  have c: "cascaded demo2 = 2"
    by (simp add: demo2_def)
  have f65: "wide_font 65 = Some [1, 2, 3, 4, 5, 6, 7, 8, 9]"
    and f67: "wide_font 67 = Some [31, 32, 33, 34, 35, 36, 37, 38]"
    by (simp_all add: wide_font_def)
  have u8: "[0..<8] = [0, 1, 2, 3, 4, 5, 6, 7]"
    by (simp add: upt_rec)
  have u2: "[0..<2] = [0, 1]"
    by (simp add: upt_rec)
  have r8: "replicate 8 (0::int) = [0, 0, 0, 0, 0, 0, 0, 0]"
    by (simp add: numeral_eq_Suc)
  have "letter 1 65 wide_font False demo2 =
      Inl (OverflowError 65, redrawn True (demo2\<lparr>buffer := zero_device (nat 1) (buffer demo2)\<rparr>))"
    using letter_glyph_overflow [of demo2 1 65 wide_font "[1, 2, 3, 4, 5, 6, 7, 8, 9]" False] w c f65
    by simp
  moreover have "\<exists>s'. letter 1 67 wide_font False demo2 = Inr s'"
    using letter_glyph_overflow [of demo2 1 67 wide_font "[31, 32, 33, 34, 35, 36, 37, 38]" False]
      w c f67
    by simp
  ultimately show ?thesis
    using w c f65 f67
    by (simp add: redrawn_def frame_def zero_device_def demo2_def u8 u2 r8 MAX7219_REG_DIGIT0_def)
qed

text \<open>
  Claim C10. For a device id \<open>d\<close> in range, a character code in \<open>[0, 256)\<close> and a font
  whose entry for the code has \<open>n < 8\<close> column values, \<open>letter\<close> writes the values to the
  buffer positions \<open>d * 8 .. d * 8 + n - 1\<close> in order and leaves the other \<open>8 - n\<close> bytes of
  device \<open>d\<close> and the bytes of every other device as they were.
\<close>

theorem letter_short_glyph:
  assumes "wf s" and "0 \<le> d" and "d < cascaded s"
    and "0 \<le> code" and "code < 256" and "fnt code = Some cols" and "length cols < 8"
  shows "letter d code fnt redraw s =
           Inr (redrawn redraw
                  (s\<lparr>buffer := take (nat d * 8) (buffer s) @ cols @
                                 drop (nat d * 8 + length cols) (buffer s)\<rparr>)) \<and>
         nat d * 8 + length cols < nat d * 8 + 8 \<and>
         nat d * 8 + 8 \<le> length (buffer s)"
proof -
  let ?s = "s\<lparr>buffer := take (nat d * 8) (buffer s) @ cols @
                         drop (nat d * 8 + length cols) (buffer s)\<rparr>"
  have k: "nat d < nat (cascaded s)" and d: "int (nat d) = d"
    using assms(2,3) by auto
  have len: "nat d * 8 + 8 \<le> length (buffer s)"
    using assms(1) k by (auto simp: wf_def NUM_DIGITS_def)
  have n: "length cols \<le> 8"
    using assms(7) by simp
  have "wf ?s"
    using assms(1) len n by (simp add: wf_buffer_same_length)
  then have "(if redraw then flush ?s else Inr ?s) = Inr (redrawn redraw ?s)"
    by (rule maybe_flush_wf)
  then have "letter d code fnt redraw s = Inr (redrawn redraw ?s)"
    using letter_loop_fits [OF assms(1) k n, of code, unfolded d] assms(4-6)
    by (simp add: letter_def)
  then show ?thesis
    using len assms(7) by simp
qed

theorem letter_short_glyph_witness:
  "wf demo2 \<and> (0::int) \<le> 1 \<and> 1 < cascaded demo2 \<and> (0::int) \<le> 66 \<and> (66::int) < 256 \<and>
   wide_font 66 = Some [21, 22, 23] \<and> length [21, 22, 23 :: int] < 8 \<and>
   letter 1 66 wide_font False demo2 =
     Inr \<lparr>cascaded = 2, buffer = [1, 2, 3, 4, 5, 6, 7, 8, 21, 22, 23, 12, 13, 14, 15, 16],
          spi = []\<rparr>"
proof -
  have w: "wf demo2"
    by (simp add: wf_def demo2_def NUM_DIGITS_def)
  have c: "cascaded demo2 = 2"
    by (simp add: demo2_def)
  have f66: "wide_font 66 = Some [21, 22, 23]"
    by (simp add: wide_font_def)
  have "letter 1 66 wide_font False demo2 =
      Inr (redrawn False
             (demo2\<lparr>buffer := take (nat 1 * 8) (buffer demo2) @ [21, 22, 23] @
                                 drop (nat 1 * 8 + length [21, 22, 23 :: int]) (buffer demo2)\<rparr>))"
    using letter_short_glyph [of demo2 1 66 wide_font "[21, 22, 23]" False] w c f66 by simp
  then show ?thesis
    using w c f66 by (simp add: redrawn_def demo2_def)
qed

lemma keeps_raise: "wf s \<Longrightarrow> keeps s (Inl (e, s))"
  by (simp add: keeps_def)

lemma keeps_redrawn: "wf s' \<Longrightarrow> cascaded s' = cascaded s \<Longrightarrow> keeps s (Inr (redrawn r s'))"
  by (simp add: keeps_def)

lemma keeps_maybe_flush:
  "wf s' \<Longrightarrow> cascaded s' = cascaded s \<Longrightarrow> keeps s (if r then flush s' else Inr s')"
  by (simp add: maybe_flush_wf keeps_redrawn)

lemma py_setitem_length: "py_setitem xs i v = Inr ys \<Longrightarrow> length ys = length xs"
  by (auto simp: py_setitem_def split: option.splits)

lemma keeps_command: "wf s \<Longrightarrow> keeps s (command register data s)"
  by (simp add: command_def device_write_def keeps_def)

lemma keeps_brightness: "wf s \<Longrightarrow> keeps s (brightness intensity s)"
  by (simp add: brightness_def keeps_command keeps_raise)

lemma keeps_flush: "wf s \<Longrightarrow> keeps s (flush s)"
  using keeps_maybe_flush [of s s True] by simp

lemma keeps_set_byte:
  assumes "wf s"
  shows "keeps s (set_byte deviceId position val redraw s)"
proof (cases "py_setitem (buffer s)
                ((deviceId * NUM_DIGITS) + position - MAX7219_REG_DIGIT0) val")
  case (Inl e)
  then show ?thesis
    using assms by (simp add: set_byte_def keeps_raise)
next
  case (Inr buf)
  then have "wf (s\<lparr>buffer := buf\<rparr>)"
    using assms by (simp add: wf_buffer_same_length py_setitem_length)
  then have "keeps s (if redraw then flush (s\<lparr>buffer := buf\<rparr>) else Inr (s\<lparr>buffer := buf\<rparr>))"
    by (rule keeps_maybe_flush) simp
  then show ?thesis
    using assms Inr by (simp add: set_byte_def keeps_raise)
qed

lemma keeps_clear:
  assumes "wf s"
  shows "keeps s (clear deviceId s)"
proof (cases deviceId)
  case None
  have "wf (s\<lparr>buffer := replicate (length (buffer s)) 0\<rparr>)"
    using assms by (simp add: wf_buffer_same_length)
  then show ?thesis
    using None clear_None_wf [OF assms] by (simp add: keeps_redrawn)
next
  case (Some d)
  show ?thesis
  proof (cases "0 \<le> d \<and> d < cascaded s")
    case True
    then have "nat d * 8 + 8 \<le> length (buffer s)"
      using assms by (auto simp: wf_def NUM_DIGITS_def)
    then have "wf (s\<lparr>buffer := zero_device (nat d) (buffer s)\<rparr>)"
      using assms by (simp add: wf_buffer_same_length length_zero_device)
    then show ?thesis
      using Some True clear_Some_wf [OF assms, of d] by (simp add: keeps_redrawn)
  next
    case False
    moreover have "d \<noteq> 0"
      using False assms by (auto simp: wf_def)
    ultimately show ?thesis
      using Some assms by (simp add: clear_def keeps_raise)
  qed
qed

lemma keeps_scroll_left: "wf s \<Longrightarrow> keeps s (scroll_left redraw s)"
  by (frule scroll_left_wf [of s redraw])
     (auto simp: keeps_def wf_def NUM_DIGITS_def)

lemma keeps_scroll_right: "wf s \<Longrightarrow> keeps s (scroll_right redraw s)"
  by (frule scroll_right_wf [of s redraw])
     (auto simp: keeps_def wf_def NUM_DIGITS_def)

lemma keeps_scroll_up: "wf s \<Longrightarrow> keeps s (scroll_up redraw s)"
  by (frule scroll_up_wf [of s redraw]) (simp add: keeps_def wf_def)

lemma keeps_scroll_down: "wf s \<Longrightarrow> keeps s (scroll_down redraw s)"
  by (frule scroll_down_wf [of s redraw]) (simp add: keeps_def wf_def)

lemma keeps_pixel:
  assumes "wf s"
  shows "keeps s (pixel x y val redraw s)"
proof (cases "py_getitem (buffer s) y")
  case (Inl e)
  then show ?thesis
    using assms by (simp add: pixel_def keeps_raise)
next
  case old: (Inr old)
  let ?v = "if val \<noteq> 0 then old OR push_bit (nat x) 1 else old AND NOT (push_bit (nat x) 1)"
  show ?thesis
  proof (cases "py_setitem (buffer s) y ?v")
    case (Inl e)
    then show ?thesis
      using assms old by (simp add: pixel_def keeps_raise)
  next
    case (Inr buf)
    then have "wf (s\<lparr>buffer := buf\<rparr>)"
      using assms by (simp add: wf_buffer_same_length py_setitem_length)
    then have "keeps s (if redraw then flush (s\<lparr>buffer := buf\<rparr>) else Inr (s\<lparr>buffer := buf\<rparr>))"
      by (rule keeps_maybe_flush) simp
    then show ?thesis
      using assms old Inr by (simp add: pixel_def keeps_raise)
  qed
qed

lemma letter_loop_bad_device:
  assumes "\<not> (0 \<le> d \<and> d < cascaded s)"
  shows "letter_loop d code MAX7219_REG_DIGIT0 (v # vs) s = Inl (AssertionError, s)"
  using assms by (simp add: set_byte_def MAX7219_REG_DIGIT0_def MAX7219_REG_DIGIT7_def)

lemma keeps_letter:
  assumes "wf s"
  shows "keeps s (letter d code fnt redraw s)"
proof (cases "0 \<le> code \<and> code < 256")
  case False
  then show ?thesis
    using assms by (auto simp: letter_def keeps_raise)
next
  case code: True
  show ?thesis
  proof (cases "fnt code")
    case None
    then show ?thesis
      using assms code by (simp add: letter_def keeps_raise)
  next
    case (Some cols)
    show ?thesis
    proof (cases "0 \<le> d \<and> d < cascaded s")
      case True
      then have k: "nat d < nat (cascaded s)" and d: "int (nat d) = d"
        by auto
      have len: "nat d * 8 + 8 \<le> length (buffer s)"
        using assms k by (auto simp: wf_def NUM_DIGITS_def)
      show ?thesis
      proof (cases "length cols \<le> 8")
        case fits: True
        let ?s = "s\<lparr>buffer := take (nat d * 8) (buffer s) @ cols @
                               drop (nat d * 8 + length cols) (buffer s)\<rparr>"
        have "wf ?s"
          using assms len fits by (simp add: wf_buffer_same_length)
        then have "keeps s (if redraw then flush ?s else Inr ?s)"
          by (rule keeps_maybe_flush) simp
        then show ?thesis
          using letter_loop_fits [OF assms k fits, of code, unfolded d] code Some
          by (simp add: letter_def)
      next
        case False
        then have over: "8 < length cols"
          by simp
        have "wf (s\<lparr>buffer := zero_device (nat d) (buffer s)\<rparr>)"
          using assms len by (simp add: wf_buffer_same_length length_zero_device)
        then show ?thesis
          using letter_loop_overflow [OF assms k over, of code, unfolded d] code Some
          by (simp add: letter_def keeps_def)
      qed
    next
      case bad: False
      show ?thesis
      proof (cases cols)
        case Nil
        have "keeps s (if redraw then flush s else Inr s)"
          using assms by (rule keeps_maybe_flush) simp
        then show ?thesis
          using code Some Nil by (simp add: letter_def)
      next
        case (Cons v vs)
        then show ?thesis
          using letter_loop_bad_device [OF bad, of code v vs] code Some assms
          by (simp add: letter_def keeps_raise)
      qed
    qed
  qed
qed

lemma keeps_run: "wf s \<Longrightarrow> keeps s (run c s)"
  by (cases c)
     (simp_all add: keeps_command keeps_clear keeps_flush keeps_brightness keeps_set_byte
        keeps_scroll_left keeps_scroll_right keeps_letter keeps_scroll_up keeps_scroll_down
        keeps_pixel)

lemma init_created:
  assumes "0 < n"
  shows "init n =
     Inr (redrawn True
       \<lparr>cascaded = n, buffer = replicate (nat (NUM_DIGITS * n)) 0,
        spi = [concat (replicate (nat n) [MAX7219_REG_SCANLIMIT, 7]),
               concat (replicate (nat n) [MAX7219_REG_DECODEMODE, 0]),
               concat (replicate (nat n) [MAX7219_REG_DISPLAYTEST, 0]),
               concat (replicate (nat n) [MAX7219_REG_SHUTDOWN, 1]),
               concat (replicate (nat n) [MAX7219_REG_INTENSITY, 7])]\<rparr>)"
proof -
  let ?s = "\<lparr>cascaded = n, buffer = replicate (nat (NUM_DIGITS * n)) 0,
        spi = [concat (replicate (nat n) [MAX7219_REG_SCANLIMIT, 7]),
               concat (replicate (nat n) [MAX7219_REG_DECODEMODE, 0]),
               concat (replicate (nat n) [MAX7219_REG_DISPLAYTEST, 0]),
               concat (replicate (nat n) [MAX7219_REG_SHUTDOWN, 1]),
               concat (replicate (nat n) [MAX7219_REG_INTENSITY, 7])]\<rparr>"
  have "wf ?s"
    using assms by (simp add: wf_def NUM_DIGITS_def)
  then have "clear None ?s = Inr (redrawn True (?s\<lparr>buffer := replicate (length (buffer ?s)) 0\<rparr>))"
    by (rule clear_None_wf)
  then have "clear None ?s = Inr (redrawn True ?s)"
    by simp
  then show ?thesis
    using assms
    by (simp add: init_def command_def brightness_def device_write_def
        MAX7219_REG_SCANLIMIT_def MAX7219_REG_DECODEMODE_def MAX7219_REG_DISPLAYTEST_def
        MAX7219_REG_SHUTDOWN_def MAX7219_REG_INTENSITY_def)
qed

lemma reachable_wf: "reachable n s \<Longrightarrow> wf s \<and> cascaded s = n"
proof (induction rule: reachable.induct)
  case (created n s)
  then have "0 < n"
    by (auto simp: init_def split: if_splits)
  then show ?case
    using created init_created [of n] by (auto simp: wf_def NUM_DIGITS_def)
next
  case (called n s c)
  then show ?case
    using keeps_run [of s c] by (simp add: keeps_def)
qed

lemma scrolls_from_reachable:
  "reachable n s \<Longrightarrow> list_all is_scroll ops \<Longrightarrow>
     \<exists>s'. for_each ops run s = Inr s' \<and> reachable n s'"
proof (induction ops arbitrary: s)
  case Nil
  then show ?case by simp
next
  case (Cons c ops)
  have w: "wf s"
    using Cons.prems(1) reachable_wf by blast
  have "is_scroll c"
    using Cons.prems(2) by simp
  then obtain s1 where s1: "run c s = Inr s1"
    using scroll_left_wf [OF w] scroll_right_wf [OF w] scroll_up_wf [OF w] scroll_down_wf [OF w]
    by (cases c) simp_all
  have "reachable n (after (run c s))"
    using Cons.prems(1) by (rule reachable.called)
  then have "reachable n s1"
    using s1 by simp
  moreover have "list_all is_scroll ops"
    using Cons.prems(2) by simp
  ultimately show ?case
    using Cons.IH s1 by simp
qed

text \<open>
  Claim C5. Construction with fewer than one device fails its assertion. With
  \<open>n \<ge> 1\<close> devices construction returns an object whose buffer has \<open>8 * n\<close> bytes, and
  from any state that object can reach, any sequence of scroll_left, scroll_right,
  scroll_up and scroll_down calls, in any order, returns normally with a buffer of
  \<open>8 * n\<close> bytes after every call.
\<close>

theorem buffer_length_invariant:
  "(n < 1 \<longrightarrow> init n = Inl AssertionError) \<and>
   (1 \<le> n \<longrightarrow> (\<exists>s. init n = Inr s \<and> reachable n s \<and> int (length (buffer s)) = 8 * n)) \<and>
   (reachable n s \<and> list_all is_scroll ops \<longrightarrow>
      (\<exists>s'. for_each ops run s = Inr s' \<and> reachable n s' \<and>
            int (length (buffer s')) = 8 * n))"
proof -
  have len: "int (length (buffer t)) = 8 * n" if "reachable n t" for t
    using reachable_wf [OF that] by (simp add: wf_def NUM_DIGITS_def)
  have fail: "init n = Inl AssertionError" if "n < 1"
    using that by (simp add: init_def)
  have ok: "\<exists>s. init n = Inr s \<and> reachable n s \<and> int (length (buffer s)) = 8 * n" if "1 \<le> n"
  proof -
    have "0 < n"
      using that by simp
    then obtain s where s: "init n = Inr s"
      using init_created [of n] by blast
    then have "reachable n s"
      by (rule reachable.created)
    then show ?thesis
      using s len by blast
  qed
  have scrolls: "\<exists>s'. for_each ops run s = Inr s' \<and> reachable n s' \<and>
      int (length (buffer s')) = 8 * n"
    if "reachable n s" "list_all is_scroll ops"
    using scrolls_from_reachable [OF that] len by blast
  show ?thesis
    using fail ok scrolls by blast
qed

theorem buffer_length_invariant_witness:
  "(0::int) < 1 \<and> init 0 = Inl AssertionError \<and> (1::int) \<le> 1 \<and> init 1 = Inr created1 \<and>
   reachable 1 created1 \<and>
   list_all is_scroll [ScrollRight False, ScrollDown False, ScrollLeft False, ScrollUp False] \<and>
   for_each [ScrollRight False, ScrollDown False, ScrollLeft False, ScrollUp False] run created1 =
     Inr created1 \<and>
   int (length (buffer created1)) = 8 * 1"
proof -
  let ?ops = "[ScrollRight False, ScrollDown False, ScrollLeft False, ScrollUp False]"
  have u8: "[0..<8] = [0, 1, 2, 3, 4, 5, 6, 7]"
    by (simp add: upt_rec)
  have r8: "replicate 8 (0::int) = [0, 0, 0, 0, 0, 0, 0, 0]"
    by (simp add: numeral_eq_Suc)
  have e0: "init 0 = Inl AssertionError"
    using buffer_length_invariant [of 0] by simp
  have e1: "init 1 = Inr created1"
    using init_created [of 1]
    by (simp add: created1_def redrawn_def frame_def u8 r8 constants_defs)
  have r: "reachable 1 created1"
    using e1 by (rule reachable.created)
  have l: "list_all is_scroll ?ops"
    by simp
  obtain s' where s': "for_each ?ops run created1 = Inr s'" "int (length (buffer s')) = 8 * 1"
    using buffer_length_invariant [of 1 created1 ?ops] r l by blast
  have f: "for_each ?ops run created1 = Inr created1"
    by (simp add: created1_def scroll_left_def scroll_right_def scroll_up_def scroll_down_def
        py_delitem_def py_index_def NUM_DIGITS_def)
  show ?thesis
    using e0 e1 r l f s' by simp
qed

end
